theory Spec2Isabelle
  imports Complex_Main
begin

section \<open>Errors\<close>

text \<open>
  The Python exceptions that the modelled code can raise: indexing an empty list
  (\<open>self.sequence[-1]\<close>), dividing by zero (\<open>/\<close>), \<open>max\<close> of an empty list or \<open>int\<close> of
  a NaN, and a number too large for a float or \<open>int\<close> of an infinity.
\<close>

datatype error = IndexError | ZeroDivisionError | ValueError | OverflowError

section \<open>RecamanSequence\<close>

text \<open>
  The object state of class \<open>RecamanSequence\<close>: the list of terms, the set of values seen
  and the step counter. Python integers are unbounded, hence \<open>int\<close>.
\<close>

record RecamanSequence =
  sequence :: "int list"
  seen :: "int set"
  currentStep :: int

text \<open>\<open>__init__\<close>: seed \<open>[0]\<close>, seen \<open>{0}\<close>, step counter 1.\<close>

definition init :: RecamanSequence where
  "init = \<lparr> sequence = [0], seen = {0}, currentStep = 1 \<rparr>"

text \<open>
  \<open>generateNext\<close>: \<open>self.sequence[-1]\<close> raises IndexError on an empty list; otherwise the
  candidate is chosen, appended, added to the set, the counter is incremented, and the new
  value is returned together with the updated object.
\<close>

definition generateNext :: "RecamanSequence \<Rightarrow> error + (int \<times> RecamanSequence)" where
  "generateNext s =
     (if sequence s = [] then Inl IndexError
      else
        let lastValue = last (sequence s);
            candidate = lastValue - currentStep s;
            nextValue = (if candidate > 0 \<and> candidate \<notin> seen s then candidate
                         else lastValue + currentStep s)
        in Inr (nextValue,
                s\<lparr> sequence := sequence s @ [nextValue],
                   seen := insert nextValue (seen s),
                   currentStep := currentStep s + 1 \<rparr>))"

text \<open>
  \<open>generateTerms\<close>: the \<open>while len(self.sequence) < numTerms\<close> loop. The result of each
  \<open>generateNext\<close> call is discarded; an exception raised inside ends the loop.
\<close>

function generateTerms :: "RecamanSequence \<Rightarrow> int \<Rightarrow> error + RecamanSequence" where
  "generateTerms s numTerms =
     (if int (length (sequence s)) < numTerms
      then (case generateNext s of
              Inl e \<Rightarrow> Inl e
            | Inr r \<Rightarrow> generateTerms (snd r) numTerms)
      else Inr s)"
  by pat_completeness auto
termination
proof (relation "measure (\<lambda>(s, numTerms). nat (numTerms - int (length (sequence s))))")
  show "wf (measure (\<lambda>(s, numTerms). nat (numTerms - int (length (sequence s)))))"
    by simp
next
  fix s :: RecamanSequence and numTerms :: int and r :: "int \<times> RecamanSequence"
  assume lt: "int (length (sequence s)) < numTerms" and gen: "generateNext s = Inr r"
  from gen have "length (sequence (snd r)) = Suc (length (sequence s))"
    by (auto simp: generateNext_def Let_def split: if_splits)
  with lt show "((snd r, numTerms), (s, numTerms))
      \<in> measure (\<lambda>(s, numTerms). nat (numTerms - int (length (sequence s))))"
    by simp
qed

declare generateTerms.simps [simp del]

text \<open>\<open>max\<close> of a list, as Python's builtin: ValueError on the empty list.\<close>

fun py_max :: "int list \<Rightarrow> error + int" where
  "py_max [] = Inl ValueError"
| "py_max (x # xs) = Inr (fold max xs x)"

text \<open>\<open>getMaxValue\<close>: \<open>max(self.sequence) if self.sequence else 0\<close>.\<close>

definition getMaxValue :: "RecamanSequence \<Rightarrow> error + int" where
  "getMaxValue s = (if sequence s \<noteq> [] then py_max (sequence s) else Inr 0)"

section \<open>Numbers\<close>


definition py_int :: "real \<Rightarrow> int" where
  "py_int x = (if 0 \<le> x then \<lfloor>x\<rfloor> else \<lceil>x\<rceil>)"

subsection \<open>Floats\<close>

text \<open>
  The floats of \<open>interpolateColor\<close> are IEEE 754 binary64 values: 53 bits of precision,
  the unit in the last place never below \<open>2 powr - 1074\<close>, results rounded to the nearest
  value with ties to the even one, magnitudes from \<open>2 ^ 1024\<close> on becoming infinities.

  \<open>rne\<close> rounds a real to the nearest integer, ties to even. \<open>fexp x\<close> is the exponent of
  the unit in the last place for a magnitude \<open>x > 0\<close>. \<open>round_mag\<close> rounds a magnitude,
  \<open>round64\<close> a real of either sign.
\<close>

definition rne :: "real \<Rightarrow> int" where
  "rne q = (let f = \<lfloor>q\<rfloor>; d = q - real_of_int f
            in if d < 1 / 2 then f
               else if 1 / 2 < d then f + 1
               else if even f then f else f + 1)"

definition fexp :: "real \<Rightarrow> int" where
  "fexp x = max (\<lfloor>log 2 x\<rfloor> - 52) (- 1074)"

definition round_mag :: "real \<Rightarrow> real" where
  "round_mag x =
     real_of_int (rne (x / 2 powr real_of_int (fexp x))) * 2 powr real_of_int (fexp x)"

definition round64 :: "real \<Rightarrow> real" where
  "round64 x = (if x = 0 then 0 else sgn x * round_mag \<bar>x\<bar>)"

text \<open>
  A Python float. The sign of a zero is not kept: the modelled code never divides by a
  float, and \<open>int\<close> of either zero is 0.
\<close>

datatype pyfloat = Finite real | PosInf | NegInf | NaN

text \<open>The float for the exact result \<open>x\<close> of an arithmetic operation on finite floats.\<close>

definition to_float :: "real \<Rightarrow> pyfloat" where
  "to_float x =
     (let r = round64 x
      in if 2 ^ 1024 \<le> r then PosInf else if r \<le> - (2 ^ 1024) then NegInf else Finite r)"

text \<open>
  The conversion of an \<open>int\<close> operand to a float in \<open>int * float\<close> and \<open>int + float\<close>:
  correctly rounded, OverflowError when the rounded value is out of range.
\<close>

definition float_of_int :: "int \<Rightarrow> error + pyfloat" where
  "float_of_int k =
     (let r = round64 (real_of_int k)
      in if 2 ^ 1024 \<le> \<bar>r\<bar> then Inl OverflowError else Inr (Finite r))"

text \<open>
  \<open>a / b\<close> on two \<open>int\<close> values: ZeroDivisionError on a zero divisor, the correctly
  rounded quotient otherwise, OverflowError when it is out of range.
\<close>

definition int_truediv :: "int \<Rightarrow> int \<Rightarrow> error + pyfloat" where
  "int_truediv a b =
     (if b = 0 then Inl ZeroDivisionError
      else
        let r = round64 (real_of_int a / real_of_int b)
        in if 2 ^ 1024 \<le> \<bar>r\<bar> then Inl OverflowError else Inr (Finite r))"

text \<open>\<open>*\<close> and \<open>+\<close> on floats; neither raises.\<close>

fun float_mul :: "pyfloat \<Rightarrow> pyfloat \<Rightarrow> pyfloat" where
  "float_mul NaN y = NaN"
| "float_mul x NaN = NaN"
| "float_mul (Finite x) (Finite y) = to_float (x * y)"
| "float_mul (Finite x) PosInf = (if x = 0 then NaN else if 0 < x then PosInf else NegInf)"
| "float_mul (Finite x) NegInf = (if x = 0 then NaN else if 0 < x then NegInf else PosInf)"
| "float_mul PosInf (Finite y) = (if y = 0 then NaN else if 0 < y then PosInf else NegInf)"
| "float_mul NegInf (Finite y) = (if y = 0 then NaN else if 0 < y then NegInf else PosInf)"
| "float_mul PosInf PosInf = PosInf"
| "float_mul PosInf NegInf = NegInf"
| "float_mul NegInf PosInf = NegInf"
| "float_mul NegInf NegInf = PosInf"

fun float_add :: "pyfloat \<Rightarrow> pyfloat \<Rightarrow> pyfloat" where
  "float_add NaN y = NaN"
| "float_add x NaN = NaN"
| "float_add (Finite x) (Finite y) = to_float (x + y)"
| "float_add (Finite x) PosInf = PosInf"
| "float_add (Finite x) NegInf = NegInf"
| "float_add PosInf (Finite y) = PosInf"
| "float_add NegInf (Finite y) = NegInf"
| "float_add PosInf PosInf = PosInf"
| "float_add PosInf NegInf = NaN"
| "float_add NegInf PosInf = NaN"
| "float_add NegInf NegInf = NegInf"

text \<open>\<open>int(x)\<close> on a float: OverflowError on an infinity, ValueError on a NaN.\<close>

fun float_to_int :: "pyfloat \<Rightarrow> error + int" where
  "float_to_int (Finite x) = Inr (py_int x)"
| "float_to_int PosInf = Inl OverflowError"
| "float_to_int NegInf = Inl OverflowError"
| "float_to_int NaN = Inl ValueError"

section \<open>Configuration\<close>

text \<open>
  The settings read from \<open>config.json\<close>, with the keys the modelled code reads. Colours are
  RGB triples of integers; the window size is integral; padding and the vertical position
  are JSON numbers. The key \<open>maxTerms\<close> is the field \<open>cfgMaxTerms\<close>, since the visualization
  object has an attribute of the same name.
\<close>

record ArcSettings =
  colorStart :: "int \<times> int \<times> int"
  colorEnd :: "int \<times> int \<times> int"
  segments :: int
  strokeWeight :: int

record AutoScaling =
  enabled :: bool
  padding :: real

record NumberLineSettings =
  yPosition :: real

record Config =
  windowWidth :: int
  windowHeight :: int
  cfgMaxTerms :: int
  autoScaling :: AutoScaling
  numberLineSettings :: NumberLineSettings
  arcSettings :: ArcSettings

section \<open>ArcVisualizer\<close>

text \<open>
  One channel of \<open>interpolateColor\<close>, the expression
  \<open>int(colorStart[k] + (colorEnd[k] - colorStart[k]) * ratio)\<close>: the difference is an
  \<open>int\<close>, converted to a float for the product; the start channel is converted for the
  sum; the sum is truncated.
\<close>

definition interpolateChannel :: "int \<Rightarrow> int \<Rightarrow> pyfloat \<Rightarrow> error + int" where
  "interpolateChannel s e ratio =
     (case float_of_int (e - s) of
        Inl x \<Rightarrow> Inl x
      | Inr d \<Rightarrow>
          (case float_of_int s of
             Inl x \<Rightarrow> Inl x
           | Inr fs \<Rightarrow> float_to_int (float_add fs (float_mul d ratio))))"

text \<open>\<open>interpolateColor\<close>, on \<open>self.arcSettings\<close>.\<close>

definition interpolateColor :: "ArcSettings \<Rightarrow> int \<Rightarrow> int \<Rightarrow> error + (int \<times> int \<times> int)" where
  "interpolateColor a index totalArcs =
     (case int_truediv index (max (totalArcs - 1) 1) of
        Inl x \<Rightarrow> Inl x
      | Inr ratio \<Rightarrow>
          (case colorStart a of (s0, s1, s2) \<Rightarrow>
           case colorEnd a of (e0, e1, e2) \<Rightarrow>
             (case interpolateChannel s0 e0 ratio of
                Inl x \<Rightarrow> Inl x
              | Inr r \<Rightarrow>
                  (case interpolateChannel s1 e1 ratio of
                     Inl x \<Rightarrow> Inl x
                   | Inr g \<Rightarrow>
                       (case interpolateChannel s2 e2 ratio of
                          Inl x \<Rightarrow> Inl x
                        | Inr b \<Rightarrow> Inr (r, g, b))))))"

section \<open>RecamanVisualization\<close>

text \<open>
  The attributes of the visualization object that the modelled methods read or write.
  \<open>self.sequence\<close> is the field \<open>sequenceObj\<close>. The window, the clock and the visualizer
  object carry no state of their own beyond the configuration.
\<close>

record RecamanVisualization =
  config :: Config
  width :: int
  height :: int
  sequenceObj :: RecamanSequence
  currentArc :: int
  maxTerms :: int
  running :: bool
  paused :: bool
  scale :: real
  offsetX :: real
  offsetY :: real



text \<open>The input events that \<open>handleEvents\<close> distinguishes.\<close>

datatype key = K_SPACE | K_r | K_ESCAPE | K_other

datatype event = QUIT | KEYDOWN key | OtherEvent

definition reset :: "RecamanVisualization \<Rightarrow> RecamanVisualization" where
  "reset v = v\<lparr> currentArc := 0 \<rparr>"

text \<open>The body of the loop over the polled events, then the loop.\<close>

fun handleEvent :: "event \<Rightarrow> RecamanVisualization \<Rightarrow> RecamanVisualization" where
  "handleEvent QUIT v = v\<lparr> running := False \<rparr>"
| "handleEvent (KEYDOWN K_SPACE) v = v\<lparr> paused := \<not> paused v \<rparr>"
| "handleEvent (KEYDOWN K_r) v = reset v"
| "handleEvent (KEYDOWN K_ESCAPE) v = v\<lparr> running := False \<rparr>"
| "handleEvent (KEYDOWN K_other) v = v"
| "handleEvent OtherEvent v = v"

definition handleEvents :: "event list \<Rightarrow> RecamanVisualization \<Rightarrow> RecamanVisualization" where
  "handleEvents evs v = fold handleEvent evs v"

definition update :: "RecamanVisualization \<Rightarrow> RecamanVisualization" where
  "update v =
     (if \<not> paused v \<and> currentArc v < int (length (sequence (sequenceObj v))) - 1
      then v\<lparr> currentArc := currentArc v + 1 \<rparr>
      else v)"

text \<open>
  \<open>run\<close>, over the events polled in each frame: one \<open>handleEvents\<close> and one \<open>update\<close> per
  frame while \<open>running\<close> holds (drawing does not change the object).
\<close>

fun run :: "event list list \<Rightarrow> RecamanVisualization \<Rightarrow> RecamanVisualization" where
  "run [] v = v"
| "run (evs # frames) v =
     (if running v then run frames (update (handleEvents evs v)) else v)"

section \<open>Reachable states and the selection rule as specified\<close>

text \<open>
  The states of a \<open>RecamanSequence\<close> object: the one \<open>__init__\<close> builds, and every state a
  call of \<open>generateNext\<close> leads to from a reachable one.
\<close>

inductive reachable :: "RecamanSequence \<Rightarrow> bool" where
  reachable_init: "reachable init"
| reachable_next: "reachable s \<Longrightarrow> generateNext s = Inr (v, s') \<Longrightarrow> reachable s'"

text \<open>
  What holds in every reachable state: the list is not empty, the set holds exactly the
  values of the list, the counter is the length of the list, the first term is 0 and all
  later terms are positive.
\<close>

definition seq_inv :: "RecamanSequence \<Rightarrow> bool" where
  "seq_inv s \<longleftrightarrow> sequence s \<noteq> [] \<and> seen s = set (sequence s)
             \<and> currentStep s = int (length (sequence s))
             \<and> hd (sequence s) = 0 \<and> (\<forall>x \<in> set (tl (sequence s)). 0 < x)"

text \<open>
  The selection rule in the words of the specification, on the previous term, the index
  and the list of earlier terms: the difference if it is strictly positive and not among
  the earlier terms, the sum otherwise.
\<close>

definition spec_selection_rule :: "int \<Rightarrow> int \<Rightarrow> int list \<Rightarrow> int" where
  "spec_selection_rule prev n earlier =
     (if 0 < prev - n \<and> prev - n \<notin> set earlier then prev - n else prev + n)"

text \<open>
  The channels of a colour, and the colours the configuration allows: each channel an
  integer from 0 to 255.
\<close>

definition red :: "int \<times> int \<times> int \<Rightarrow> int" where "red c = fst c"
definition green :: "int \<times> int \<times> int \<Rightarrow> int" where "green c = fst (snd c)"
definition blue :: "int \<times> int \<times> int \<Rightarrow> int" where "blue c = snd (snd c)"

text \<open>
  The value of one channel on a finite ratio when no conversion overflows: the rounded
  product, the rounded sum, the truncation.
\<close>

definition channel_value :: "int \<Rightarrow> int \<Rightarrow> real \<Rightarrow> int" where
  "channel_value s e r = py_int (round64 (real_of_int s + round64 (real_of_int (e - s) * r)))"

definition valid_rgb :: "int \<times> int \<times> int \<Rightarrow> bool" where
  "valid_rgb c \<longleftrightarrow> 0 \<le> red c \<and> red c \<le> 255 \<and> 0 \<le> green c \<and> green c \<le> 255
                  \<and> 0 \<le> blue c \<and> blue c \<le> 255"

text \<open>
  A configuration with auto-scaling enabled, the same with auto-scaling disabled, and the
  object that \<open>__init__\<close> builds from the first.
\<close>

definition example_config :: Config where
  "example_config =
     \<lparr> windowWidth = 800, windowHeight = 600, cfgMaxTerms = 3,
       autoScaling = \<lparr> enabled = True, padding = 50 \<rparr>,
       numberLineSettings = \<lparr> yPosition = 1 / 2 \<rparr>,
       arcSettings = \<lparr> colorStart = (255, 0, 0), colorEnd = (0, 0, 255),
                       segments = 2, strokeWeight = 2 \<rparr> \<rparr>"


definition example_state :: RecamanVisualization where
  "example_state =
     \<lparr> config = example_config, width = 800, height = 600,
       sequenceObj = \<lparr> sequence = [0, 1, 3], seen = {3, 1, 0}, currentStep = 3 \<rparr>,
       currentArc = 0, maxTerms = 3, running = True, paused = False,
       scale = 700 / 3, offsetX = 50, offsetY = 300 \<rparr>"

section \<open>Properties of the sequence generator\<close>

lemma generateNext_nonempty:
  "sequence s \<noteq> [] \<Longrightarrow> \<exists>r. generateNext s = Inr r"
  by (simp add: generateNext_def Let_def)

lemma generateNext_length:
  "generateNext s = Inr r \<Longrightarrow> length (sequence (snd r)) = Suc (length (sequence s))"
  by (auto simp: generateNext_def Let_def split: if_splits)

lemma generateNext_sequence:
  "generateNext s = Inr r \<Longrightarrow> sequence (snd r) = sequence s @ [fst r]"
  by (auto simp: generateNext_def Let_def split: if_splits)

lemma generateNext_seen:
  "generateNext s = Inr r \<Longrightarrow> seen (snd r) = insert (fst r) (seen s)"
  by (auto simp: generateNext_def Let_def split: if_splits)

lemma generateNext_step:
  "generateNext s = Inr r \<Longrightarrow> currentStep (snd r) = currentStep s + 1"
  by (auto simp: generateNext_def Let_def split: if_splits)

lemma generateNext_value:
  "generateNext s = Inr r \<Longrightarrow>
     fst r = (if 0 < last (sequence s) - currentStep s \<and> last (sequence s) - currentStep s \<notin> seen s
              then last (sequence s) - currentStep s else last (sequence s) + currentStep s)"
  by (auto simp: generateNext_def Let_def split: if_splits)

lemma generateTerms_done:
  "\<not> int (length (sequence s)) < n \<Longrightarrow> generateTerms s n = Inr s"
  by (simp add: generateTerms.simps)

lemma generateTerms_unfold:
  "int (length (sequence s)) < n \<Longrightarrow> generateNext s = Inr r \<Longrightarrow>
     generateTerms s n = generateTerms (snd r) n"
  by (simp add: generateTerms.simps)

lemma generateTerms_total:
  "sequence s \<noteq> [] \<Longrightarrow>
     \<exists>s'. generateTerms s n = Inr s' \<and> sequence s' \<noteq> []
        \<and> int (length (sequence s')) = max n (int (length (sequence s)))"
proof (induction s n rule: generateTerms.induct)
  case (1 s numTerms)
  show ?case
  proof (cases "int (length (sequence s)) < numTerms")
    case False
    with 1 show ?thesis by (simp add: generateTerms_done)
  next
    case True
    from 1(2) obtain r where r: "generateNext s = Inr r"
      using generateNext_nonempty by blast
    have ne: "sequence (snd r) \<noteq> []"
      using generateNext_sequence [OF r] by simp
    from 1(1) [OF True r ne] obtain s' where
      s': "generateTerms (snd r) numTerms = Inr s'" "sequence s' \<noteq> []"
          "int (length (sequence s')) = max numTerms (int (length (sequence (snd r))))"
      by blast
    have "generateTerms s numTerms = Inr s'"
      using generateTerms_unfold [OF True r] s'(1) by simp
    moreover have "int (length (sequence s')) = max numTerms (int (length (sequence s)))"
      using s'(3) True generateNext_length [OF r] by simp
    ultimately show ?thesis using s'(2) by blast
  qed
qed

lemma generateTerms_Suc:
  "generateTerms s (n + 1) =
     (case generateTerms s n of
        Inl e \<Rightarrow> Inl e
      | Inr p \<Rightarrow> if int (length (sequence p)) < n + 1
                 then (case generateNext p of Inl e \<Rightarrow> Inl e | Inr r \<Rightarrow> Inr (snd r))
                 else Inr p)"
proof (induction s n rule: generateTerms.induct)
  case (1 s numTerms)
  show ?case
  proof (cases "int (length (sequence s)) < numTerms")
    case False
    then have a: "generateTerms s numTerms = Inr s" by (simp add: generateTerms_done)
    show ?thesis
    proof (cases "int (length (sequence s)) < numTerms + 1")
      case f: False
      then show ?thesis using a by (simp add: generateTerms_done)
    next
      case t: True
      show ?thesis
      proof (cases "generateNext s")
        case (Inl e)
        then show ?thesis using a t by (simp add: generateTerms.simps [of s "numTerms + 1"])
      next
        case (Inr r)
        have "\<not> int (length (sequence (snd r))) < numTerms + 1"
          using generateNext_length [OF Inr] False by simp
        then have "generateTerms (snd r) (numTerms + 1) = Inr (snd r)"
          by (rule generateTerms_done)
        then show ?thesis using a t Inr generateTerms_unfold [OF t Inr] by simp
      qed
    qed
  next
    case True
    then have t: "int (length (sequence s)) < numTerms + 1" by simp
    show ?thesis
    proof (cases "generateNext s")
      case (Inl e)
      then show ?thesis using True t
        by (simp add: generateTerms.simps [of s "numTerms + 1"] generateTerms.simps [of s numTerms])
    next
      case (Inr r)
      show ?thesis
        using 1 [OF True Inr] generateTerms_unfold [OF True Inr] generateTerms_unfold [OF t Inr]
        by simp
    qed
  qed
qed

lemma seq_inv_init: "seq_inv init"
  by (simp add: seq_inv_def init_def)

lemma seq_inv_next:
  assumes "seq_inv s" and "generateNext s = Inr r"
  shows "seq_inv (snd r)"
proof -
  from assms(1) have ne: "sequence s \<noteq> []" and sn: "seen s = set (sequence s)"
    and st: "currentStep s = int (length (sequence s))" and h: "hd (sequence s) = 0"
    and pos: "\<forall>x \<in> set (tl (sequence s)). 0 < x"
    by (simp_all add: seq_inv_def)
  have l0: "0 \<le> last (sequence s)"
  proof (cases "sequence s")
    case Nil with ne show ?thesis by simp
  next
    case (Cons a as)
    with h pos show ?thesis by (cases "as = []") (auto simp: less_imp_le)
  qed
  have st1: "1 \<le> currentStep s" using ne st by (cases "sequence s") simp_all
  have v: "0 < fst r" using generateNext_value [OF assms(2)] l0 st1 by (simp split: if_splits)
  show ?thesis
    unfolding seq_inv_def
    using generateNext_sequence [OF assms(2)] generateNext_seen [OF assms(2)]
      generateNext_step [OF assms(2)] ne sn st h pos v
    by auto
qed

lemma reachable_seq_inv: "reachable s \<Longrightarrow> seq_inv s"
  by (induction rule: reachable.induct) (auto simp: seq_inv_init dest: seq_inv_next)

lemma seq_inv_generateTerms:
  "seq_inv s \<Longrightarrow> generateTerms s n = Inr s' \<Longrightarrow> seq_inv s'"
proof (induction s n rule: generateTerms.induct)
  case (1 s numTerms)
  show ?case
  proof (cases "int (length (sequence s)) < numTerms")
    case False
    with 1(2,3) show ?thesis by (simp add: generateTerms_done)
  next
    case True
    from 1(2) have "sequence s \<noteq> []" by (simp add: seq_inv_def)
    then obtain r where r: "generateNext s = Inr r"
      using generateNext_nonempty by blast
    have "generateTerms (snd r) numTerms = Inr s'"
      using generateTerms_unfold [OF True r] 1(3) by simp
    with 1(1) [OF True r seq_inv_next [OF 1(2) r]] show ?thesis .
  qed
qed

lemma reachable_generateTerms:
  "reachable s \<Longrightarrow> generateTerms s n = Inr s' \<Longrightarrow> reachable s'"
proof (induction s n rule: generateTerms.induct)
  case (1 s numTerms)
  show ?case
  proof (cases "int (length (sequence s)) < numTerms")
    case False
    with 1(2,3) show ?thesis by (simp add: generateTerms_done)
  next
    case True
    from 1(2) have "sequence s \<noteq> []" using reachable_seq_inv by (simp add: seq_inv_def)
    then obtain r where r: "generateNext s = Inr r"
      using generateNext_nonempty by blast
    have g: "generateTerms (snd r) numTerms = Inr s'"
      using generateTerms_unfold [OF True r] 1(3) by simp
    have "reachable (snd r)"
      using reachable_next [OF 1(2), of "fst r" "snd r"] r by simp
    with 1(1) [OF True r _ g] show ?thesis .
  qed
qed

text \<open>
  C1: for every \<open>n \<ge> 1\<close>, generating from the initial state to \<open>n + 1\<close> terms succeeds;
  term 0 is 0, and term \<open>n\<close> is the value the specified selection rule gives for term
  \<open>n - 1\<close>, the step \<open>n\<close> and the terms \<open>0 .. n - 1\<close>. It is produced by the call of
  \<open>generateNext\<close> on the state holding \<open>n\<close> terms, whose step counter is \<open>n\<close> and whose
  seen-set is the set of the terms \<open>0 .. n - 1\<close>.
\<close>

theorem generateNext_selection_rule:
  assumes "1 \<le> n"
  shows "\<exists>p s. generateTerms init (int n) = Inr p
           \<and> generateTerms init (int n + 1) = Inr s
           \<and> length (sequence p) = n \<and> length (sequence s) = n + 1
           \<and> currentStep p = int n
           \<and> sequence p = take n (sequence s)
           \<and> seen p = set (take n (sequence s))
           \<and> generateNext p = Inr (sequence s ! n, s)
           \<and> sequence s ! 0 = 0
           \<and> sequence s ! n =
               spec_selection_rule (sequence s ! (n - 1)) (int n) (take n (sequence s))"
proof -
  have ne: "sequence init \<noteq> []" by (simp add: init_def)
  from generateTerms_total [OF ne, of "int n"] obtain p where
    p: "generateTerms init (int n) = Inr p"
    and lp: "int (length (sequence p)) = max (int n) (int (length (sequence init)))"
    by blast
  from lp assms have len_p: "length (sequence p) = n" by (simp add: init_def)
  have ip: "seq_inv p" using seq_inv_generateTerms [OF seq_inv_init p] .
  then have pne: "sequence p \<noteq> []" and sp: "seen p = set (sequence p)"
    and cp: "currentStep p = int n" and hp: "hd (sequence p) = 0"
    using len_p by (simp_all add: seq_inv_def)
  from pne obtain r where r: "generateNext p = Inr r"
    using generateNext_nonempty by blast
  define s where "s = snd r"
  have seq_s: "sequence s = sequence p @ [fst r]"
    unfolding s_def using generateNext_sequence [OF r] .
  have gs: "generateTerms init (int n + 1) = Inr s"
    using p r len_p by (simp add: generateTerms_Suc s_def)
  have tk: "take n (sequence s) = sequence p" using seq_s len_p by simp
  have nth_n: "sequence s ! n = fst r" using seq_s len_p by (simp add: nth_append)
  have nth_prev: "sequence s ! (n - 1) = last (sequence p)"
    using seq_s len_p pne assms by (simp add: nth_append last_conv_nth)
  have nth_0: "sequence s ! 0 = 0"
    using seq_s pne hp by (simp add: nth_append hd_conv_nth)
  have rule: "sequence s ! n =
               spec_selection_rule (sequence s ! (n - 1)) (int n) (take n (sequence s))"
    using generateNext_value [OF r] by (simp only: nth_n nth_prev tk sp cp spec_selection_rule_def)
  have gen: "generateNext p = Inr (sequence s ! n, s)"
    by (metis nth_n prod.collapse r s_def)
  show ?thesis
    using p gs len_p seq_s tk sp cp gen nth_0 rule by (intro exI [of _ p] exI [of _ s]) simp
qed

theorem generateNext_selection_rule_witness:
  "(1::nat) \<le> 4 \<and> (\<exists>p s. generateTerms init 4 = Inr p
           \<and> generateTerms init 5 = Inr s
           \<and> length (sequence p) = 4 \<and> length (sequence s) = 5
           \<and> currentStep p = 4
           \<and> sequence p = take 4 (sequence s)
           \<and> seen p = set (take 4 (sequence s))
           \<and> generateNext p = Inr (sequence s ! 4, s)
           \<and> sequence s ! 0 = 0
           \<and> sequence s ! 4 =
               spec_selection_rule (sequence s ! 3) 4 (take 4 (sequence s)))"
  using generateNext_selection_rule [of 4] by simp

text \<open>
  C9: from every state with a non-empty sequence (every state of the object has one) and
  for every \<open>n\<close>, \<open>generateTerms\<close> returns; afterwards the sequence holds
  \<open>max n (previous length)\<close> terms, and the state is unchanged when it already held at
  least \<open>n\<close> terms. The loop is a total function: its termination proof is the strict
  growth of the sequence in each call of \<open>generateNext\<close>.
\<close>

theorem generateTerms_terminates_length:
  assumes "sequence s \<noteq> []"
  shows "\<exists>s'. generateTerms s n = Inr s'
           \<and> int (length (sequence s')) = max n (int (length (sequence s)))
           \<and> (n \<le> int (length (sequence s)) \<longrightarrow> s' = s)"
proof -
  from generateTerms_total [OF assms, of n] obtain s' where
    s': "generateTerms s n = Inr s'"
        "int (length (sequence s')) = max n (int (length (sequence s)))"
    by blast
  have "n \<le> int (length (sequence s)) \<longrightarrow> s' = s"
    using s'(1) by (auto simp: generateTerms_done)
  with s' show ?thesis by blast
qed

lemma py_max_Max: "xs \<noteq> [] \<Longrightarrow> py_max xs = Inr (Max (set xs))"
  by (cases xs) (simp_all add: Max.set_eq_fold [symmetric])

text \<open>
  C10: in every reachable state all terms are non-negative, every term at an index
  \<open>\<ge> 1\<close> is strictly positive, and \<open>getMaxValue\<close> returns a value \<open>\<ge> 0\<close>, which is
  \<open>> 0\<close> when the sequence holds at least two terms.
\<close>

theorem sequence_nonneg_max_bounds:
  assumes "reachable s"
  shows "(\<forall>x \<in> set (sequence s). 0 \<le> x)
       \<and> (\<forall>i. 1 \<le> i \<and> i < length (sequence s) \<longrightarrow> 0 < sequence s ! i)
       \<and> (\<exists>m. getMaxValue s = Inr m \<and> 0 \<le> m \<and> (2 \<le> length (sequence s) \<longrightarrow> 0 < m))"
proof -
  from reachable_seq_inv [OF assms] have ne: "sequence s \<noteq> []" and h: "hd (sequence s) = 0"
    and pos: "\<forall>x \<in> set (tl (sequence s)). 0 < x"
    by (simp_all add: seq_inv_def)
  from ne obtain a as where sq: "sequence s = a # as" by (cases "sequence s") auto
  with h pos have a: "a = 0" and as: "\<forall>x \<in> set as. 0 < x" by simp_all
  have nonneg: "\<forall>x \<in> set (sequence s). 0 \<le> x" using sq a as by (auto simp: less_imp_le)
  have strict: "\<forall>i. 1 \<le> i \<and> i < length (sequence s) \<longrightarrow> 0 < sequence s ! i"
  proof (intro allI impI)
    fix i assume "1 \<le> i \<and> i < length (sequence s)"
    then have i: "1 \<le> i" "i < length (sequence s)" by simp_all
    then have "sequence s ! i = as ! (i - 1)" "i - 1 < length as"
      using sq by (auto simp: nth_Cons')
    then show "0 < sequence s ! i" using as by simp
  qed
  have m: "getMaxValue s = Inr (Max (set (sequence s)))"
    using ne by (simp add: getMaxValue_def py_max_Max)
  have m0: "0 \<le> Max (set (sequence s))"
    using sq a by (simp add: Max_ge_iff)
  have m1: "2 \<le> length (sequence s) \<longrightarrow> 0 < Max (set (sequence s))"
  proof
    assume "2 \<le> length (sequence s)"
    then obtain b bs where "as = b # bs" using sq by (cases as) auto
    then have "b \<in> set (sequence s)" "0 < b" using sq as by simp_all
    then have "b \<le> Max (set (sequence s))" "0 < b" by simp_all
    then show "0 < Max (set (sequence s))" by linarith
  qed
  show ?thesis using nonneg strict m m0 m1 by blast
qed

text \<open>
  C7 (as amended): across every call of \<open>generateNext\<close> from a reachable state the
  seen-set loses no member and gains at most the appended term; after the call it is the
  set of the values of the sequence, so its size is at most the number of terms.
\<close>

theorem seen_append_only:
  assumes "reachable s" and "generateNext s = Inr (v, s')"
  shows "seen s \<subseteq> seen s' \<and> seen s' = insert v (seen s)
       \<and> seen s' = set (sequence s')
       \<and> length (sequence s') = length (sequence s) + 1
       \<and> card (seen s') \<le> card (seen s) + 1
       \<and> card (seen s') \<le> length (sequence s')"
proof -
  have i: "seq_inv s" using reachable_seq_inv [OF assms(1)] .
  have i': "seq_inv s'" using seq_inv_next [OF i assms(2)] by simp
  have sn: "seen s' = insert v (seen s)" using generateNext_seen [OF assms(2)] by simp
  have fin: "finite (seen s)" using i by (simp add: seq_inv_def)
  have c1: "card (seen s') \<le> card (seen s) + 1"
    using sn fin by (simp add: card_insert_if)
  have st: "seen s' = set (sequence s')" using i' by (simp add: seq_inv_def)
  have c2: "card (seen s') \<le> length (sequence s')"
    unfolding st by (rule card_length)
  have l: "length (sequence s') = length (sequence s) + 1"
    using generateNext_length [OF assms(2)] by simp
  show ?thesis using sn st l c1 c2 by auto
qed

theorem seen_append_only_witness:
  "reachable init
   \<and> generateNext init = Inr (1, \<lparr> sequence = [0, 1], seen = {1, 0}, currentStep = 2 \<rparr>)
   \<and> seen init \<subseteq> {1, 0} \<and> card {1, 0 :: int} \<le> card (seen init) + 1
   \<and> card {1, 0 :: int} \<le> length [0, 1 :: int]"
proof -
  have g: "generateNext init = Inr (1, \<lparr> sequence = [0, 1], seen = {1, 0}, currentStep = 2 \<rparr>)"
    by (simp add: generateNext_def init_def)
  have s: "seen init = {0}" by (simp add: init_def)
  show ?thesis
    using seen_append_only [OF reachable_init g] reachable_init g by (simp add: s)
qed

text \<open>
  C7 as stated fails: the 25th term, 42, is already in the seen-set (it is the 21st term
  too), so after 25 terms the set has 24 members.
\<close>

theorem seen_size_counterexample:
  "map_sum id (length \<circ> sequence) (generateTerms init 25) = Inr 25
   \<and> map_sum id (card \<circ> seen) (generateTerms init 25) = Inr 24"
  by (simp add: generateTerms.simps generateNext_def init_def card_insert_if)

theorem generateTerms_terminates_length_witness:
  "sequence init \<noteq> []
   \<and> (\<exists>s'. generateTerms init 5 = Inr s'
         \<and> int (length (sequence s')) = max 5 (int (length (sequence init)))
         \<and> (5 \<le> int (length (sequence init)) \<longrightarrow> s' = init))"
proof -
  have ne: "sequence init \<noteq> []" by (simp add: init_def)
  show ?thesis using generateTerms_terminates_length [OF ne, of 5] ne by simp
qed

theorem sequence_nonneg_max_bounds_witness:
  "reachable \<lparr> sequence = [0, 1], seen = {1, 0}, currentStep = 2 \<rparr>
   \<and> (\<exists>m. getMaxValue \<lparr> sequence = [0, 1], seen = {1, 0}, currentStep = 2 \<rparr> = Inr m
          \<and> 0 < m)"
proof -
  have g: "generateNext init = Inr (1, \<lparr> sequence = [0, 1], seen = {1, 0}, currentStep = 2 \<rparr>)"
    by (simp add: generateNext_def init_def)
  have r: "reachable \<lparr> sequence = [0, 1], seen = {1, 0}, currentStep = 2 \<rparr>"
    using reachable_next [OF reachable_init g] .
  show ?thesis using sequence_nonneg_max_bounds [OF r] r by auto
qed

text \<open>
  C2 (as amended): generating from the initial state to 10 terms yields the list
  \<open>[0, 1, 3, 6, 2, 7, 13, 20, 12, 21]\<close>.
\<close>

theorem generateTerms_first_ten:
  "generateTerms init 10 =
     Inr \<lparr> sequence = [0, 1, 3, 6, 2, 7, 13, 20, 12, 21],
           seen = {21, 12, 20, 13, 7, 2, 6, 3, 1, 0}, currentStep = 10 \<rparr>"
  by (simp add: generateTerms.simps generateNext_def init_def)

text \<open>C2 as stated fails: the list of the first 10 terms is not the one given.\<close>

theorem generateTerms_golden_counterexample:
  "map_sum id sequence (generateTerms init 10) \<noteq> Inr [0, 1, 3, 2, 6, 5, 10, 9, 15, 8]"
  by (simp add: generateTerms.simps generateNext_def init_def)

section \<open>Properties of the animation state\<close>

lemma update_sequenceObj: "sequenceObj (update v) = sequenceObj v"
  by (simp add: update_def)

lemma update_paused: "paused (update v) = paused v"
  by (simp add: update_def)

lemma update_bound:
  "currentArc v \<le> int (length (sequence (sequenceObj v))) - 1
     \<Longrightarrow> currentArc (update v) \<le> int (length (sequence (sequenceObj v))) - 1"
  by (simp add: update_def)

lemma funpow_update_sequenceObj: "sequenceObj ((update ^^ N) v) = sequenceObj v"
  by (induction N) (simp_all add: update_sequenceObj)

lemma funpow_update_paused: "paused ((update ^^ N) v) = paused v"
  by (induction N) (simp_all add: update_paused)

lemma funpow_update_bound:
  "currentArc v \<le> int (length (sequence (sequenceObj v))) - 1
     \<Longrightarrow> currentArc ((update ^^ N) v) \<le> int (length (sequence (sequenceObj v))) - 1"
proof (induction N)
  case 0
  then show ?case by simp
next
  case (Suc N)
  then have "currentArc ((update ^^ N) v)
               \<le> int (length (sequence (sequenceObj ((update ^^ N) v)))) - 1"
    by (simp add: funpow_update_sequenceObj)
  from update_bound [OF this] show ?case by (simp add: funpow_update_sequenceObj)
qed

lemma funpow_update_running:
  "\<not> paused v \<Longrightarrow> currentArc v \<le> int (length (sequence (sequenceObj v))) - 1
     \<Longrightarrow> currentArc ((update ^^ N) v)
           = min (currentArc v + int N) (int (length (sequence (sequenceObj v))) - 1)"
proof (induction N)
  case 0
  then show ?case by simp
next
  case (Suc N)
  let ?w = "(update ^^ N) v"
  have p: "\<not> paused ?w" using Suc.prems(1) by (simp add: funpow_update_paused)
  have s: "sequenceObj ?w = sequenceObj v" by (rule funpow_update_sequenceObj)
  have c: "currentArc ?w = min (currentArc v + int N) (int (length (sequence (sequenceObj v))) - 1)"
    using Suc by simp
  have "currentArc (update ?w)
          = min (currentArc v + int (Suc N)) (int (length (sequence (sequenceObj v))) - 1)"
    using p s c by (simp add: update_def min_def)
  then show ?case by simp
qed

lemma handleEvent_sequenceObj: "sequenceObj (handleEvent e v) = sequenceObj v"
  by (induction e v rule: handleEvent.induct) (simp_all add: reset_def)

lemma handleEvent_bound:
  "sequence (sequenceObj v) \<noteq> []
     \<Longrightarrow> currentArc v \<le> int (length (sequence (sequenceObj v))) - 1
     \<Longrightarrow> currentArc (handleEvent e v) \<le> int (length (sequence (sequenceObj v))) - 1"
  by (induction e v rule: handleEvent.induct) (simp_all add: reset_def Suc_le_eq)

lemma handleEvents_sequenceObj: "sequenceObj (handleEvents evs v) = sequenceObj v"
  unfolding handleEvents_def
  by (induction evs arbitrary: v) (simp_all add: handleEvent_sequenceObj)

lemma handleEvents_bound:
  "sequence (sequenceObj v) \<noteq> []
     \<Longrightarrow> currentArc v \<le> int (length (sequence (sequenceObj v))) - 1
     \<Longrightarrow> currentArc (handleEvents evs v) \<le> int (length (sequence (sequenceObj v))) - 1"
  unfolding handleEvents_def
proof (induction evs arbitrary: v)
  case Nil
  then show ?case by simp
next
  case (Cons e evs)
  have "currentArc (fold handleEvent evs (handleEvent e v))
          \<le> int (length (sequence (sequenceObj (handleEvent e v)))) - 1"
    using Cons.prems handleEvent_bound [of v e]
    by (intro Cons.IH) (simp_all add: handleEvent_sequenceObj)
  then show ?case by (simp add: handleEvent_sequenceObj)
qed

lemma run_bound:
  "sequence (sequenceObj v) \<noteq> []
     \<Longrightarrow> currentArc v \<le> int (length (sequence (sequenceObj v))) - 1
     \<Longrightarrow> sequenceObj (run frames v) = sequenceObj v
         \<and> currentArc (run frames v) \<le> int (length (sequence (sequenceObj v))) - 1"
proof (induction frames arbitrary: v)
  case Nil
  then show ?case by simp
next
  case (Cons evs frames)
  let ?w = "update (handleEvents evs v)"
  have s: "sequenceObj ?w = sequenceObj v"
    by (simp add: update_sequenceObj handleEvents_sequenceObj)
  have "currentArc (handleEvents evs v)
          \<le> int (length (sequence (sequenceObj (handleEvents evs v)))) - 1"
    using handleEvents_bound [OF Cons.prems] by (simp add: handleEvents_sequenceObj)
  from update_bound [OF this]
  have b: "currentArc ?w \<le> int (length (sequence (sequenceObj ?w))) - 1"
    by (simp add: update_sequenceObj)
  have ne: "sequence (sequenceObj ?w) \<noteq> []" using Cons.prems(1) s by simp
  from Cons.IH [OF ne b] s Cons.prems show ?case by simp
qed

text \<open>
  C3: in every state of the object (the sequence is never empty, so the number of arcs,
  the number of terms minus one, is not negative): from \<open>currentArc = 0\<close> and not paused,
  \<open>N\<close> calls of \<open>update\<close> lead to \<open>currentArc = min N totalArcs\<close>; a call of \<open>update\<close> while
  paused changes nothing; and once \<open>currentArc \<le> totalArcs\<close> holds, it holds after any
  number of calls of \<open>update\<close> and after any run of frames, whatever events arrive.
\<close>

theorem update_ticks:
  assumes "sequence (sequenceObj v) \<noteq> []"
  shows "(currentArc v = 0 \<and> \<not> paused v \<longrightarrow>
            currentArc ((update ^^ N) v)
              = min (int N) (int (length (sequence (sequenceObj v))) - 1))
       \<and> (paused v \<longrightarrow> update v = v)
       \<and> (currentArc v \<le> int (length (sequence (sequenceObj v))) - 1 \<longrightarrow>
            currentArc ((update ^^ N) v) \<le> int (length (sequence (sequenceObj v))) - 1
          \<and> currentArc (run frames v) \<le> int (length (sequence (sequenceObj v))) - 1)"
proof -
  have t: "0 \<le> int (length (sequence (sequenceObj v))) - 1"
    using assms by (cases "sequence (sequenceObj v)") simp_all
  have a: "currentArc v = 0 \<and> \<not> paused v \<longrightarrow>
            currentArc ((update ^^ N) v)
              = min (int N) (int (length (sequence (sequenceObj v))) - 1)"
    using funpow_update_running [of v N] t by simp
  have b: "paused v \<longrightarrow> update v = v" by (simp add: update_def)
  have c: "currentArc v \<le> int (length (sequence (sequenceObj v))) - 1 \<longrightarrow>
            currentArc ((update ^^ N) v) \<le> int (length (sequence (sequenceObj v))) - 1
          \<and> currentArc (run frames v) \<le> int (length (sequence (sequenceObj v))) - 1"
    using funpow_update_bound [of v N] run_bound [OF assms, of frames] by simp
  from a b c show ?thesis by blast
qed


theorem update_ticks_witness:
  "sequence (sequenceObj example_state) \<noteq> []
   \<and> currentArc example_state = 0 \<and> \<not> paused example_state
   \<and> currentArc ((update ^^ 5) example_state) = 2
   \<and> currentArc (run [[], [KEYDOWN K_SPACE], [KEYDOWN K_r]] example_state) \<le> 2"
proof -
  have ne: "sequence (sequenceObj example_state) \<noteq> []" by (simp add: example_state_def)
  have c: "currentArc example_state = 0" "\<not> paused example_state"
    "int (length (sequence (sequenceObj example_state))) - 1 = 2"
    by (simp_all add: example_state_def)
  show ?thesis
    using update_ticks [OF ne, of 5 "[[], [KEYDOWN K_SPACE], [KEYDOWN K_r]]"] ne c
    by simp
qed

text \<open>
  C8: \<open>reset\<close> sets \<open>currentArc\<close> to 0 and leaves every other attribute as it was: the
  sequence, the seen-set, the step counter, the paused and running flags, the transform
  and the configuration. The reset key does exactly this.
\<close>

theorem reset_frame:
  "currentArc (reset v) = 0
   \<and> sequenceObj (reset v) = sequenceObj v
   \<and> sequence (sequenceObj (reset v)) = sequence (sequenceObj v)
   \<and> seen (sequenceObj (reset v)) = seen (sequenceObj v)
   \<and> currentStep (sequenceObj (reset v)) = currentStep (sequenceObj v)
   \<and> paused (reset v) = paused v
   \<and> running (reset v) = running v
   \<and> scale (reset v) = scale v \<and> offsetX (reset v) = offsetX v \<and> offsetY (reset v) = offsetY v
   \<and> config (reset v) = config v \<and> width (reset v) = width v \<and> height (reset v) = height v
   \<and> maxTerms (reset v) = maxTerms v
   \<and> handleEvents [KEYDOWN K_r] v = reset v"
  by (simp add: reset_def handleEvents_def)

section \<open>Properties of the screen transform\<close>






section \<open>Properties of binary64 rounding\<close>

lemma rne_of_int: "rne (real_of_int n) = n"
  by (simp add: rne_def)

lemma rne_bounds: "\<lfloor>q\<rfloor> \<le> rne q \<and> rne q \<le> \<lfloor>q\<rfloor> + 1"
  by (simp add: rne_def Let_def)

lemma rne_mono: "q1 \<le> q2 \<Longrightarrow> rne q1 \<le> rne q2"
proof -
  assume le: "q1 \<le> q2"
  then have fl: "\<lfloor>q1\<rfloor> \<le> \<lfloor>q2\<rfloor>" by (rule floor_mono)
  show ?thesis
  proof (cases "\<lfloor>q1\<rfloor> = \<lfloor>q2\<rfloor>")
    case True
    define f where "f = \<lfloor>q2\<rfloor>"
    have d: "q1 - real_of_int f \<le> q2 - real_of_int f" using le by simp
    have r1: "rne q1 = (if q1 - real_of_int f < 1 / 2 then f
               else if 1 / 2 < q1 - real_of_int f then f + 1
               else if even f then f else f + 1)"
      by (simp only: rne_def Let_def True f_def)
    have r2: "rne q2 = (if q2 - real_of_int f < 1 / 2 then f
               else if 1 / 2 < q2 - real_of_int f then f + 1
               else if even f then f else f + 1)"
      by (simp only: rne_def Let_def f_def)
    show ?thesis unfolding r1 r2 using d by (simp split: if_splits)
  next
    case False
    with fl have "\<lfloor>q1\<rfloor> + 1 \<le> \<lfloor>q2\<rfloor>" by simp
    with rne_bounds [of q1] rne_bounds [of q2] show ?thesis by linarith
  qed
qed

lemma rne_le: "q \<le> real_of_int n \<Longrightarrow> rne q \<le> n"
  using rne_mono [of q "real_of_int n"] by (simp add: rne_of_int)

lemma rne_ge: "real_of_int n \<le> q \<Longrightarrow> n \<le> rne q"
  using rne_mono [of "real_of_int n" q] by (simp add: rne_of_int)

lemma pow2_int: "0 \<le> k \<Longrightarrow> 2 powr real_of_int k = real_of_int (2 ^ nat k)"
  by (simp add: powr_int)

lemma floor_log_lower: "0 < x \<Longrightarrow> 2 powr real_of_int \<lfloor>log 2 x\<rfloor> \<le> x"
proof -
  assume x: "0 < x"
  have "real_of_int \<lfloor>log 2 x\<rfloor> \<le> log 2 x" by simp
  then have "2 powr real_of_int \<lfloor>log 2 x\<rfloor> \<le> 2 powr log 2 x"
    by (simp add: powr_mono)
  with x show ?thesis by simp
qed

lemma floor_log_upper: "0 < x \<Longrightarrow> x < 2 powr real_of_int (\<lfloor>log 2 x\<rfloor> + 1)"
proof -
  assume x: "0 < x"
  have "log 2 x < real_of_int (\<lfloor>log 2 x\<rfloor> + 1)" by linarith
  then have "2 powr log 2 x < 2 powr real_of_int (\<lfloor>log 2 x\<rfloor> + 1)"
    by (simp add: powr_less_mono)
  with x show ?thesis by simp
qed

lemma fexp_mono: "0 < x \<Longrightarrow> x \<le> y \<Longrightarrow> fexp x \<le> fexp y"
proof -
  assume "0 < x" "x \<le> y"
  then have "log 2 x \<le> log 2 y" by simp
  then have "\<lfloor>log 2 x\<rfloor> \<le> \<lfloor>log 2 y\<rfloor>" by (rule floor_mono)
  then show ?thesis by (simp add: fexp_def)
qed

lemma round_mag_nonneg: "0 \<le> x \<Longrightarrow> 0 \<le> round_mag x"
proof -
  assume "0 \<le> x"
  then have "0 \<le> x / 2 powr real_of_int (fexp x)" by simp
  then have "0 \<le> rne (x / 2 powr real_of_int (fexp x))"
    using rne_ge [of 0] by simp
  then show ?thesis by (simp add: round_mag_def)
qed

lemma round_mag_mono:
  assumes "0 < x" and "x \<le> y"
  shows "round_mag x \<le> round_mag y"
proof (cases "fexp x = fexp y")
  case True
  have "x / 2 powr real_of_int (fexp y) \<le> y / 2 powr real_of_int (fexp y)"
    using assms(2) by (simp add: divide_right_mono)
  then have "rne (x / 2 powr real_of_int (fexp y)) \<le> rne (y / 2 powr real_of_int (fexp y))"
    by (rule rne_mono)
  then show ?thesis
    by (simp add: round_mag_def True mult_right_mono)
next
  case False
  with fexp_mono [OF assms] have lt: "fexp x < fexp y" by simp
  have y: "0 < y" using assms by simp
  define L where "L = \<lfloor>log 2 y\<rfloor>"
  have ey: "fexp y = L - 52"
    using lt by (auto simp: fexp_def L_def max_def split: if_splits)
  have Lx: "\<lfloor>log 2 x\<rfloor> + 1 \<le> L"
    using lt ey by (auto simp: fexp_def max_def split: if_splits)
  have ex: "fexp x \<le> L" using lt ey by simp
  define p where "p = 2 powr real_of_int L"
  have xp: "x \<le> p"
  proof -
    have "x < 2 powr real_of_int (\<lfloor>log 2 x\<rfloor> + 1)" using floor_log_upper [OF assms(1)] .
    also have "\<dots> \<le> 2 powr real_of_int L" using Lx by (simp add: powr_mono)
    finally show ?thesis by (simp add: p_def)
  qed
  have py: "p \<le> y" using floor_log_lower [OF y] by (simp add: p_def L_def)
  have px: "p / 2 powr real_of_int (fexp x) = real_of_int (2 ^ nat (L - fexp x))"
  proof -
    have "p / 2 powr real_of_int (fexp x) = 2 powr real_of_int (L - fexp x)"
      by (simp add: p_def powr_diff)
    also have "\<dots> = real_of_int (2 ^ nat (L - fexp x))" using ex by (intro pow2_int) simp
    finally show ?thesis .
  qed
  have pyq: "p / 2 powr real_of_int (fexp y) = real_of_int (2 ^ nat 52)"
  proof -
    have "p / 2 powr real_of_int (fexp y) = 2 powr real_of_int 52"
      by (simp add: p_def ey powr_diff)
    also have "\<dots> = real_of_int (2 ^ nat 52)" by (intro pow2_int) simp
    finally show ?thesis .
  qed
  have "x / 2 powr real_of_int (fexp x) \<le> p / 2 powr real_of_int (fexp x)"
    using xp by (simp add: divide_right_mono)
  then have "rne (x / 2 powr real_of_int (fexp x)) \<le> 2 ^ nat (L - fexp x)"
    unfolding px by (rule rne_le)
  then have "real_of_int (rne (x / 2 powr real_of_int (fexp x)))
               \<le> real_of_int (2 ^ nat (L - fexp x))"
    by (simp only: of_int_le_iff)
  then have "round_mag x \<le> real_of_int (2 ^ nat (L - fexp x)) * 2 powr real_of_int (fexp x)"
    unfolding round_mag_def by (intro mult_right_mono) simp_all
  also have "\<dots> = p" using px by (simp add: field_simps)
  finally have a: "round_mag x \<le> p" .
  have "p / 2 powr real_of_int (fexp y) \<le> y / 2 powr real_of_int (fexp y)"
    using py by (simp add: divide_right_mono)
  then have "2 ^ nat 52 \<le> rne (y / 2 powr real_of_int (fexp y))"
    unfolding pyq by (rule rne_ge)
  then have "real_of_int (2 ^ nat 52) \<le> real_of_int (rne (y / 2 powr real_of_int (fexp y)))"
    by (simp only: of_int_le_iff)
  then have "real_of_int (2 ^ nat 52) * 2 powr real_of_int (fexp y) \<le> round_mag y"
    unfolding round_mag_def by (intro mult_right_mono) simp_all
  moreover have "real_of_int (2 ^ nat 52) * 2 powr real_of_int (fexp y) = p"
    using pyq by (simp add: field_simps)
  ultimately have b: "p \<le> round_mag y" by simp
  from a b show ?thesis by simp
qed

lemma round64_mono: "x \<le> y \<Longrightarrow> round64 x \<le> round64 y"
proof -
  assume le: "x \<le> y"
  consider "0 < x" | "x \<le> 0" "0 \<le> y" | "y < 0" by linarith
  then show ?thesis
  proof cases
    case 1
    with le have "0 < y" by simp
    with 1 le round_mag_mono [of x y] show ?thesis by (simp add: round64_def)
  next
    case 2
    have "round64 x \<le> 0"
      using 2(1) round_mag_nonneg [of "\<bar>x\<bar>"] by (auto simp: round64_def sgn_if)
    moreover have "0 \<le> round64 y"
      using 2(2) round_mag_nonneg [of "\<bar>y\<bar>"] by (auto simp: round64_def sgn_if)
    ultimately show ?thesis by simp
  next
    case 3
    with le have "x < 0" by simp
    have "round_mag \<bar>y\<bar> \<le> round_mag \<bar>x\<bar>"
      using 3 le by (intro round_mag_mono) simp_all
    with 3 \<open>x < 0\<close> show ?thesis by (simp add: round64_def)
  qed
qed

lemma round_mag_int:
  assumes "1 \<le> k" and "k < 2 ^ 53"
  shows "round_mag (real_of_int k) = real_of_int k"
proof -
  define L where "L = \<lfloor>log 2 (real_of_int k)\<rfloor>"
  have k0: "0 < real_of_int k" using assms(1) by simp
  have L0: "0 \<le> L"
  proof -
    have "0 \<le> log 2 (real_of_int k)" using assms(1) by simp
    then show ?thesis by (simp add: L_def)
  qed
  have L52: "L \<le> 52"
  proof -
    have "2 powr real_of_int L \<le> real_of_int k"
      unfolding L_def by (rule floor_log_lower [OF k0])
    then have "real_of_int (2 ^ nat L) \<le> real_of_int k"
      using L0 by (simp only: pow2_int)
    then have "(2::int) ^ nat L \<le> k" by (simp only: of_int_le_iff)
    with assms(2) have "(2::int) ^ nat L < 2 ^ 53" by linarith
    then have "nat L < 53" by (simp only: power_strict_increasing_iff [of 2] one_less_numeral_iff semiring_norm)
    then show ?thesis by simp
  qed
  have e: "fexp (real_of_int k) = L - 52"
    using L0 by (simp add: fexp_def L_def [symmetric] max_def)
  have "real_of_int k / 2 powr real_of_int (L - 52) = real_of_int k * 2 powr real_of_int (52 - L)"
    by (simp add: powr_diff field_simps)
  also have "\<dots> = real_of_int k * real_of_int (2 ^ nat (52 - L))"
    using L52 by (simp only: pow2_int)
  also have "\<dots> = real_of_int (k * 2 ^ nat (52 - L))" by simp
  finally have q: "real_of_int k / 2 powr real_of_int (L - 52) = real_of_int (k * 2 ^ nat (52 - L))" .
  have "round_mag (real_of_int k) = real_of_int (k * 2 ^ nat (52 - L)) * 2 powr real_of_int (L - 52)"
    unfolding round_mag_def e q rne_of_int ..
  also have "\<dots> = real_of_int k / 2 powr real_of_int (L - 52) * 2 powr real_of_int (L - 52)"
    using q by simp
  also have "\<dots> = real_of_int k" by simp
  finally show ?thesis .
qed

lemma round64_int:
  assumes "\<bar>k\<bar> < 2 ^ 53"
  shows "round64 (real_of_int k) = real_of_int k"
proof (cases "k = 0")
  case True
  then show ?thesis by (simp add: round64_def)
next
  case False
  then have "1 \<le> \<bar>k\<bar>" by simp
  from round_mag_int [OF this assms]
  have "round_mag \<bar>real_of_int k\<bar> = \<bar>real_of_int k\<bar>" by simp
  then show ?thesis using False by (simp add: round64_def sgn_if)
qed

lemma round64_binade:
  assumes "2 powr real_of_int L \<le> x" and "x < 2 powr (real_of_int L + 1)" and "- 1022 \<le> L"
  shows "round64 x = real_of_int (rne (x / 2 powr real_of_int (L - 52)))
                       * 2 powr real_of_int (L - 52)"
proof -
  have "0 < 2 powr real_of_int L" by simp
  with assms(1) have x: "0 < x" by linarith
  have "real_of_int L \<le> log 2 x" using assms(1) x by (simp add: le_log_iff)
  moreover have "log 2 x < real_of_int L + 1" using assms(2) x by (simp add: log_less_iff)
  ultimately have "\<lfloor>log 2 x\<rfloor> = L" by (rule floor_unique)
  then have e: "fexp x = L - 52" using assms(3) by (simp add: fexp_def)
  show ?thesis using x by (simp add: round64_def round_mag_def e)
qed

lemma round64_seven_tenths: "round64 (7 / 10) = 3152519739159347 / 4503599627370496"
proof -
  have "round64 (7 / 10) = real_of_int (rne ((7 / 10) / 2 powr real_of_int (- 1 - 52)))
                       * 2 powr real_of_int (- 1 - 52)"
    by (rule round64_binade) (simp_all add: powr_minus)
  also have "(7 / 10) / 2 powr real_of_int (- 1 - 52) = 63050394783186944 / (10::real)"
    by (simp add: powr_minus)
  also have "rne (63050394783186944 / 10) = 6305039478318694"
    by (simp add: rne_def Let_def)
  finally show ?thesis by (simp add: powr_minus)
qed

section \<open>Properties of the colour gradient\<close>

lemma round64_zero: "round64 0 = 0"
  by (simp add: round64_def)

lemma round64_small_int: "\<bar>k\<bar> \<le> 255 \<Longrightarrow> round64 (real_of_int k) = real_of_int k"
  by (rule round64_int) simp

lemma round64_between:
  assumes "real_of_int lo \<le> x" and "x \<le> real_of_int hi" and "\<bar>lo\<bar> \<le> 255" and "\<bar>hi\<bar> \<le> 255"
  shows "real_of_int lo \<le> round64 x \<and> round64 x \<le> real_of_int hi"
  using round64_mono [OF assms(1)] round64_mono [OF assms(2)]
    round64_small_int [OF assms(3)] round64_small_int [OF assms(4)]
  by simp

lemma big: "(255::real) < 2 ^ 1024"
proof -
  have "(255::real) < 2 ^ 8" by simp
  also have "\<dots> \<le> 2 ^ 1024" by (rule power_increasing) simp_all
  finally show ?thesis .
qed

lemma to_float_finite: "\<bar>round64 x\<bar> \<le> 255 \<Longrightarrow> to_float x = Finite (round64 x)"
proof -
  assume "\<bar>round64 x\<bar> \<le> 255"
  with big have "\<not> 2 ^ 1024 \<le> round64 x" "\<not> round64 x \<le> - (2 ^ 1024)" by linarith+
  then show ?thesis by (simp only: to_float_def Let_def if_False)
qed

lemma float_of_int_small: "\<bar>k\<bar> \<le> 255 \<Longrightarrow> float_of_int k = Inr (Finite (real_of_int k))"
proof -
  assume k: "\<bar>k\<bar> \<le> 255"
  then have "\<bar>real_of_int k\<bar> \<le> 255" by linarith
  with big have "\<not> 2 ^ 1024 \<le> \<bar>real_of_int k\<bar>" by linarith
  then show ?thesis
    by (simp only: float_of_int_def Let_def round64_small_int [OF k] if_False)
qed

lemma int_truediv_unit:
  assumes "0 \<le> i" and "i \<le> D" and "1 \<le> D"
  shows "int_truediv i D = Inr (Finite (round64 (real_of_int i / real_of_int D)))
       \<and> 0 \<le> round64 (real_of_int i / real_of_int D)
       \<and> round64 (real_of_int i / real_of_int D) \<le> 1"
proof -
  have q: "real_of_int 0 \<le> real_of_int i / real_of_int D"
          "real_of_int i / real_of_int D \<le> real_of_int 1"
    using assms by simp_all
  from round64_between [OF q] have b: "0 \<le> round64 (real_of_int i / real_of_int D)"
    "round64 (real_of_int i / real_of_int D) \<le> 1" by simp_all
  then have "\<bar>round64 (real_of_int i / real_of_int D)\<bar> \<le> 255" by simp
  with big have n: "\<not> 2 ^ 1024 \<le> \<bar>round64 (real_of_int i / real_of_int D)\<bar>" by linarith
  have D0: "D \<noteq> 0" using assms(3) by simp
  have "int_truediv i D = Inr (Finite (round64 (real_of_int i / real_of_int D)))"
    using n D0 by (simp only: int_truediv_def Let_def if_False)
  with b show ?thesis by simp
qed

lemma product_between:
  assumes "0 \<le> s" "s \<le> 255" "0 \<le> e" "e \<le> 255" "0 \<le> r" "r \<le> 1"
  shows "real_of_int (min 0 (e - s)) \<le> round64 (real_of_int (e - s) * r)
       \<and> round64 (real_of_int (e - s) * r) \<le> real_of_int (max 0 (e - s))"
proof -
  have a: "real_of_int (min 0 (e - s)) \<le> real_of_int (e - s) * r"
  proof (cases "0 \<le> e - s")
    case True
    then have "0 \<le> real_of_int (e - s) * r" using assms(5) by simp
    with True show ?thesis by (simp add: min_def)
  next
    case False
    then have "real_of_int (e - s) \<le> 0" by simp
    then have "real_of_int (e - s) * 1 \<le> real_of_int (e - s) * r"
      by (rule mult_left_mono_neg [OF assms(6)])
    with False show ?thesis by (simp add: min_def)
  qed
  have b: "real_of_int (e - s) * r \<le> real_of_int (max 0 (e - s))"
  proof (cases "0 \<le> e - s")
    case True
    then have "0 \<le> real_of_int (e - s)" by simp
    then have "real_of_int (e - s) * r \<le> real_of_int (e - s) * 1"
      using assms(6) by (intro mult_left_mono)
    with True show ?thesis by (simp add: max_def)
  next
    case False
    then have "real_of_int (e - s) \<le> 0" by simp
    then have "real_of_int (e - s) * r \<le> 0" using assms(5) by (simp add: mult_nonpos_nonneg)
    with False show ?thesis by (simp add: max_def)
  qed
  have c: "\<bar>min 0 (e - s)\<bar> \<le> 255" "\<bar>max 0 (e - s)\<bar> \<le> 255" using assms(1-4) by auto
  from round64_between [OF a b c] show ?thesis .
qed

lemma interpolateChannel_value:
  assumes "0 \<le> s" "s \<le> 255" "0 \<le> e" "e \<le> 255" "0 \<le> r" "r \<le> 1"
  shows "interpolateChannel s e (Finite r) = Inr (channel_value s e r)"
proof -
  define P where "P = round64 (real_of_int (e - s) * r)"
  have pb: "real_of_int (min 0 (e - s)) \<le> P" "P \<le> real_of_int (max 0 (e - s))"
    using product_between [OF assms] by (simp_all add: P_def)
  have d: "float_of_int (e - s) = Inr (Finite (real_of_int (e - s)))"
    using assms(1-4) by (intro float_of_int_small) simp
  have fs: "float_of_int s = Inr (Finite (real_of_int s))"
    using assms(1,2) by (intro float_of_int_small) simp
  have "\<bar>P\<bar> \<le> 255" using pb assms(1-4) by (auto simp: min_def max_def split: if_splits)
  then have m: "to_float (real_of_int (e - s) * r) = Finite P"
    unfolding P_def by (rule to_float_finite)
  have sb: "real_of_int (min s e) \<le> real_of_int s + P" "real_of_int s + P \<le> real_of_int (max s e)"
    using pb by (auto simp: min_def max_def split: if_splits)
  have c: "\<bar>min s e\<bar> \<le> 255" "\<bar>max s e\<bar> \<le> 255" using assms(1-4) by auto
  from round64_between [OF sb c] have "\<bar>round64 (real_of_int s + P)\<bar> \<le> 255"
    using assms(1-4) by (auto simp: min_def max_def split: if_splits)
  then have ad: "to_float (real_of_int s + P) = Finite (round64 (real_of_int s + P))"
    by (rule to_float_finite)
  show ?thesis
    by (simp add: interpolateChannel_def d fs m ad channel_value_def P_def [symmetric]
          del: of_int_diff)
qed

lemma py_int_of_int: "py_int (real_of_int k) = k"
  by (simp add: py_int_def)

lemma py_int_mono: "x \<le> y \<Longrightarrow> py_int x \<le> py_int y"
proof -
  assume xy: "x \<le> y"
  show ?thesis
  proof (cases "0 \<le> x")
    case True
    with xy show ?thesis by (simp add: py_int_def floor_mono)
  next
    case False
    show ?thesis
    proof (cases "0 \<le> y")
      case True
      have "\<lceil>x\<rceil> \<le> 0" using False by (simp add: ceiling_le_zero)
      moreover have "0 \<le> \<lfloor>y\<rfloor>" using True by simp
      moreover have "py_int x = \<lceil>x\<rceil>" using False by (simp add: py_int_def)
      moreover have "py_int y = \<lfloor>y\<rfloor>" using True by (simp add: py_int_def)
      ultimately show ?thesis by linarith
    next
      case y: False
      with False xy show ?thesis by (simp add: py_int_def ceiling_mono)
    qed
  qed
qed

lemma channel_value_start: "\<bar>s\<bar> \<le> 255 \<Longrightarrow> channel_value s e 0 = s"
  by (simp add: channel_value_def round64_zero round64_small_int py_int_of_int)

lemma channel_value_end:
  assumes "0 \<le> s" "s \<le> 255" "0 \<le> e" "e \<le> 255"
  shows "channel_value s e 1 = e"
proof -
  have "round64 (real_of_int (e - s) * 1) = real_of_int (e - s)"
    using assms by (simp only: mult_1_right) (intro round64_small_int, simp)
  then have "real_of_int s + round64 (real_of_int (e - s) * 1) = real_of_int e" by simp
  moreover have "round64 (real_of_int e) = real_of_int e"
    using assms by (intro round64_small_int) simp
  ultimately show ?thesis by (simp only: channel_value_def py_int_of_int)
qed

lemma channel_value_up:
  "s \<le> e \<Longrightarrow> r1 \<le> r2 \<Longrightarrow> channel_value s e r1 \<le> channel_value s e r2"
  unfolding channel_value_def
  by (intro py_int_mono round64_mono add_left_mono mult_left_mono) simp_all

lemma channel_value_down:
  "e \<le> s \<Longrightarrow> r1 \<le> r2 \<Longrightarrow> channel_value s e r2 \<le> channel_value s e r1"
  unfolding channel_value_def
  by (intro py_int_mono round64_mono add_left_mono mult_left_mono_neg) simp_all

lemma interpolateColor_value:
  assumes "valid_rgb (colorStart a)" and "valid_rgb (colorEnd a)"
    and "0 \<le> i" and "i \<le> max (N - 1) 1"
  shows "interpolateColor a i N =
           Inr (channel_value (red (colorStart a)) (red (colorEnd a))
                  (round64 (real_of_int i / real_of_int (max (N - 1) 1))),
                channel_value (green (colorStart a)) (green (colorEnd a))
                  (round64 (real_of_int i / real_of_int (max (N - 1) 1))),
                channel_value (blue (colorStart a)) (blue (colorEnd a))
                  (round64 (real_of_int i / real_of_int (max (N - 1) 1))))"
proof -
  define rho where "rho = round64 (real_of_int i / real_of_int (max (N - 1) 1))"
  have D: "1 \<le> max (N - 1) 1" by simp
  from int_truediv_unit [OF assms(3,4) D]
  have t: "int_truediv i (max (N - 1) 1) = Inr (Finite rho)" and r: "0 \<le> rho" "rho \<le> 1"
    by (simp_all add: rho_def)
  obtain s0 s1 s2 where cs: "colorStart a = (s0, s1, s2)" by (cases "colorStart a")
  obtain e0 e1 e2 where ce: "colorEnd a = (e0, e1, e2)" by (cases "colorEnd a")
  from assms(1) cs have s: "0 \<le> s0" "s0 \<le> 255" "0 \<le> s1" "s1 \<le> 255" "0 \<le> s2" "s2 \<le> 255"
    by (simp_all add: valid_rgb_def red_def green_def blue_def)
  from assms(2) ce have e: "0 \<le> e0" "e0 \<le> 255" "0 \<le> e1" "e1 \<le> 255" "0 \<le> e2" "e2 \<le> 255"
    by (simp_all add: valid_rgb_def red_def green_def blue_def)
  have c0: "interpolateChannel s0 e0 (Finite rho) = Inr (channel_value s0 e0 rho)"
    by (rule interpolateChannel_value [OF s(1,2) e(1,2) r])
  have c1: "interpolateChannel s1 e1 (Finite rho) = Inr (channel_value s1 e1 rho)"
    by (rule interpolateChannel_value [OF s(3,4) e(3,4) r])
  have c2: "interpolateChannel s2 e2 (Finite rho) = Inr (channel_value s2 e2 rho)"
    by (rule interpolateChannel_value [OF s(5,6) e(5,6) r])
  show ?thesis
    unfolding rho_def [symmetric]
    by (simp add: interpolateColor_def t cs ce c0 c1 c2 red_def green_def blue_def)
qed

lemma float_of_int_error: "float_of_int k = Inl x \<Longrightarrow> x = OverflowError"
  by (simp add: float_of_int_def Let_def split: if_splits)

lemma float_to_int_error: "float_to_int f = Inl x \<Longrightarrow> x = OverflowError \<or> x = ValueError"
  by (cases f) auto

lemma interpolateChannel_error:
  "interpolateChannel s e r = Inl x \<Longrightarrow> x = OverflowError \<or> x = ValueError"
  by (auto simp: interpolateChannel_def split: sum.splits
        dest: float_of_int_error float_to_int_error)

lemma int_truediv_error: "b \<noteq> 0 \<Longrightarrow> int_truediv a b = Inl x \<Longrightarrow> x = OverflowError"
  by (simp add: int_truediv_def Let_def split: if_splits)

lemma interpolateColor_no_zero_division:
  "interpolateColor a index N \<noteq> Inl ZeroDivisionError"
proof
  assume z: "interpolateColor a index N = Inl ZeroDivisionError"
  have D: "max (N - 1) 1 \<noteq> 0" by simp
  obtain s0 s1 s2 where cs: "colorStart a = (s0, s1, s2)" by (cases "colorStart a")
  obtain e0 e1 e2 where ce: "colorEnd a = (e0, e1, e2)" by (cases "colorEnd a")
  from z show False
    unfolding interpolateColor_def cs ce
    by (auto split: sum.splits dest: int_truediv_error [OF D] interpolateChannel_error)
qed

text \<open>
  C6: for start and end colours with every channel an integer from 0 to 255, as the
  configuration requires: \<open>interpolateColor 0 N\<close> is the start colour for \<open>N > 0\<close>;
  \<open>interpolateColor (N - 1) N\<close> is the end colour for \<open>N > 1\<close>; the divisor \<open>max (N - 1) 1\<close>
  is never zero, so no call raises ZeroDivisionError, and with one arc (\<open>N = 1\<close>, index 0)
  the start colour is returned; and for \<open>0 \<le> i \<le> j \<le> N - 1\<close> both calls return a colour
  and each channel at \<open>i\<close> and \<open>j\<close> is ordered as that channel of the start and end colours
  is. The floats are binary64 values with round-to-nearest-even.
\<close>

theorem interpolateColor_gradient:
  assumes "valid_rgb (colorStart a)" and "valid_rgb (colorEnd a)"
  shows "(0 < N \<longrightarrow> interpolateColor a 0 N = Inr (colorStart a))
       \<and> (1 < N \<longrightarrow> interpolateColor a (N - 1) N = Inr (colorEnd a))
       \<and> interpolateColor a index N \<noteq> Inl ZeroDivisionError
       \<and> interpolateColor a 0 1 = Inr (colorStart a)
       \<and> (0 \<le> i \<and> i \<le> j \<and> j \<le> N - 1 \<longrightarrow>
            (\<exists>ci cj. interpolateColor a i N = Inr ci \<and> interpolateColor a j N = Inr cj
               \<and> (red (colorStart a) \<le> red (colorEnd a) \<longrightarrow> red ci \<le> red cj)
               \<and> (red (colorEnd a) \<le> red (colorStart a) \<longrightarrow> red cj \<le> red ci)
               \<and> (green (colorStart a) \<le> green (colorEnd a) \<longrightarrow> green ci \<le> green cj)
               \<and> (green (colorEnd a) \<le> green (colorStart a) \<longrightarrow> green cj \<le> green ci)
               \<and> (blue (colorStart a) \<le> blue (colorEnd a) \<longrightarrow> blue ci \<le> blue cj)
               \<and> (blue (colorEnd a) \<le> blue (colorStart a) \<longrightarrow> blue cj \<le> blue ci)))"
proof -
  from assms(1) have s: "\<bar>red (colorStart a)\<bar> \<le> 255" "\<bar>green (colorStart a)\<bar> \<le> 255"
    "\<bar>blue (colorStart a)\<bar> \<le> 255"
    and s': "0 \<le> red (colorStart a)" "red (colorStart a) \<le> 255"
      "0 \<le> green (colorStart a)" "green (colorStart a) \<le> 255"
      "0 \<le> blue (colorStart a)" "blue (colorStart a) \<le> 255"
    by (simp_all add: valid_rgb_def)
  from assms(2) have e': "0 \<le> red (colorEnd a)" "red (colorEnd a) \<le> 255"
      "0 \<le> green (colorEnd a)" "green (colorEnd a) \<le> 255"
      "0 \<le> blue (colorEnd a)" "blue (colorEnd a) \<le> 255"
    by (simp_all add: valid_rgb_def)
  have start: "\<And>M. interpolateColor a 0 M = Inr (colorStart a)"
  proof -
    fix M
    have "interpolateColor a 0 M =
            Inr (red (colorStart a), green (colorStart a), blue (colorStart a))"
      using interpolateColor_value [OF assms, of 0 M]
      by (simp add: round64_zero channel_value_start s)
    then show "interpolateColor a 0 M = Inr (colorStart a)"
      by (simp add: red_def green_def blue_def)
  qed
  have fin: "1 < N \<longrightarrow> interpolateColor a (N - 1) N = Inr (colorEnd a)"
  proof
    assume N: "1 < N"
    then have m: "max (N - 1) 1 = N - 1" by simp
    have q: "real_of_int (N - 1) / real_of_int (N - 1) = 1" using N by simp
    have r1: "round64 1 = 1" using round64_small_int [of 1] by simp
    have "interpolateColor a (N - 1) N =
            Inr (red (colorEnd a), green (colorEnd a), blue (colorEnd a))"
      using interpolateColor_value [OF assms, of "N - 1" N] N
      by (simp only: m q r1 channel_value_end [OF s'(1,2) e'(1,2)]
            channel_value_end [OF s'(3,4) e'(3,4)] channel_value_end [OF s'(5,6) e'(5,6)])
    then show "interpolateColor a (N - 1) N = Inr (colorEnd a)"
      by (simp add: red_def green_def blue_def)
  qed
  have mono: "0 \<le> i \<and> i \<le> j \<and> j \<le> N - 1 \<longrightarrow>
            (\<exists>ci cj. interpolateColor a i N = Inr ci \<and> interpolateColor a j N = Inr cj
               \<and> (red (colorStart a) \<le> red (colorEnd a) \<longrightarrow> red ci \<le> red cj)
               \<and> (red (colorEnd a) \<le> red (colorStart a) \<longrightarrow> red cj \<le> red ci)
               \<and> (green (colorStart a) \<le> green (colorEnd a) \<longrightarrow> green ci \<le> green cj)
               \<and> (green (colorEnd a) \<le> green (colorStart a) \<longrightarrow> green cj \<le> green ci)
               \<and> (blue (colorStart a) \<le> blue (colorEnd a) \<longrightarrow> blue ci \<le> blue cj)
               \<and> (blue (colorEnd a) \<le> blue (colorStart a) \<longrightarrow> blue cj \<le> blue ci))"
  proof
    assume h: "0 \<le> i \<and> i \<le> j \<and> j \<le> N - 1"
    then have i: "0 \<le> i" "i \<le> max (N - 1) 1" and j: "0 \<le> j" "j \<le> max (N - 1) 1"
      and ij: "i \<le> j"
      by (auto simp: max_def)
    define ri where "ri = round64 (real_of_int i / real_of_int (max (N - 1) 1))"
    define rj where "rj = round64 (real_of_int j / real_of_int (max (N - 1) 1))"
    have "real_of_int i / real_of_int (max (N - 1) 1)
            \<le> real_of_int j / real_of_int (max (N - 1) 1)"
      using ij by (simp add: divide_right_mono)
    then have r: "ri \<le> rj" unfolding ri_def rj_def by (rule round64_mono)
    have vi: "interpolateColor a i N =
           Inr (channel_value (red (colorStart a)) (red (colorEnd a)) ri,
                channel_value (green (colorStart a)) (green (colorEnd a)) ri,
                channel_value (blue (colorStart a)) (blue (colorEnd a)) ri)"
      unfolding ri_def by (rule interpolateColor_value [OF assms i])
    have vj: "interpolateColor a j N =
           Inr (channel_value (red (colorStart a)) (red (colorEnd a)) rj,
                channel_value (green (colorStart a)) (green (colorEnd a)) rj,
                channel_value (blue (colorStart a)) (blue (colorEnd a)) rj)"
      unfolding rj_def by (rule interpolateColor_value [OF assms j])
    show "\<exists>ci cj. interpolateColor a i N = Inr ci \<and> interpolateColor a j N = Inr cj
               \<and> (red (colorStart a) \<le> red (colorEnd a) \<longrightarrow> red ci \<le> red cj)
               \<and> (red (colorEnd a) \<le> red (colorStart a) \<longrightarrow> red cj \<le> red ci)
               \<and> (green (colorStart a) \<le> green (colorEnd a) \<longrightarrow> green ci \<le> green cj)
               \<and> (green (colorEnd a) \<le> green (colorStart a) \<longrightarrow> green cj \<le> green ci)
               \<and> (blue (colorStart a) \<le> blue (colorEnd a) \<longrightarrow> blue ci \<le> blue cj)
               \<and> (blue (colorEnd a) \<le> blue (colorStart a) \<longrightarrow> blue cj \<le> blue ci)"
      unfolding vi vj
      using channel_value_up [OF _ r] channel_value_down [OF _ r]
      by (simp add: red_def green_def blue_def)
  qed
  from start [of N] start [of 1] fin mono interpolateColor_no_zero_division [of a index N]
  show ?thesis by blast
qed

theorem interpolateColor_gradient_witness:
  "valid_rgb (colorStart (arcSettings example_config))
   \<and> valid_rgb (colorEnd (arcSettings example_config))
   \<and> interpolateColor (arcSettings example_config) 0 5 = Inr (255, 0, 0)
   \<and> interpolateColor (arcSettings example_config) 4 5 = Inr (0, 0, 255)
   \<and> interpolateColor (arcSettings example_config) 0 1 = Inr (255, 0, 0)
   \<and> (\<exists>ci cj. interpolateColor (arcSettings example_config) 1 5 = Inr ci
          \<and> interpolateColor (arcSettings example_config) 3 5 = Inr cj
          \<and> red cj \<le> red ci \<and> blue ci \<le> blue cj)"
proof -
  have cs: "colorStart (arcSettings example_config) = (255, 0, 0)"
    and ce: "colorEnd (arcSettings example_config) = (0, 0, 255)"
    by (simp_all add: example_config_def)
  have v: "valid_rgb (colorStart (arcSettings example_config))"
    "valid_rgb (colorEnd (arcSettings example_config))"
    by (simp_all add: cs ce valid_rgb_def red_def green_def blue_def)
  show ?thesis
    using interpolateColor_gradient [OF v, of 5 0 1 3] v
    by (auto simp: cs ce red_def blue_def green_def)
qed

text \<open>
  Two values of the function that depend on the rounding: from \<open>(0, 0, 0)\<close> to
  \<open>(90, 0, 0)\<close> at index 7 of 11 arcs the red channel is 62, since the product of 90 and
  the float nearest to 7/10 rounds below 63; and an index of \<open>2 ^ 1024\<close> raises
  OverflowError in the division.
\<close>

lemma round64_product: "round64 (90 * (3152519739159347 / 4503599627370496)) = 8866461766385663 / 140737488355328"
proof -
  have "round64 (90 * (3152519739159347 / 4503599627370496))
          = real_of_int (rne ((90 * (3152519739159347 / 4503599627370496)) / 2 powr real_of_int (5 - 52)))
              * 2 powr real_of_int (5 - 52)"
    by (rule round64_binade) (simp_all add: powr_add)
  also have "(90 * (3152519739159347 / 4503599627370496)) / 2 powr real_of_int (5 - 52)
               = 567453553048682460 / (64::real)"
    by (simp add: powr_minus)
  also have "rne (567453553048682460 / 64) = 8866461766385663"
    by (simp add: rne_def Let_def)
  finally show ?thesis by (simp add: powr_minus)
qed

lemma round64_sum: "round64 (8866461766385663 / 140737488355328) = 8866461766385663 / 140737488355328"
proof -
  have "round64 (8866461766385663 / 140737488355328)
          = real_of_int (rne ((8866461766385663 / 140737488355328) / 2 powr real_of_int (5 - 52)))
              * 2 powr real_of_int (5 - 52)"
    by (rule round64_binade) (simp_all add: powr_add)
  also have "(8866461766385663 / 140737488355328) / 2 powr real_of_int (5 - 52)
               = real_of_int 8866461766385663"
    by (simp add: powr_minus)
  finally show ?thesis by (simp only: rne_of_int) (simp add: powr_minus)
qed

lemma interpolateColor_rounds_down:
  "interpolateColor \<lparr> colorStart = (0, 0, 0), colorEnd = (90, 0, 0),
                       segments = 2, strokeWeight = 1 \<rparr> 7 11 = Inr (62, 0, 0)"
proof -
  let ?a = "\<lparr> colorStart = (0, 0, 0), colorEnd = (90, 0, 0), segments = 2, strokeWeight = 1 \<rparr>"
  have v: "valid_rgb (colorStart ?a)" "valid_rgb (colorEnd ?a)"
    by (simp_all add: valid_rgb_def red_def green_def blue_def)
  have i: "(0::int) \<le> 7" "(7::int) \<le> max (11 - 1) 1" by simp_all
  have r: "round64 (real_of_int 7 / real_of_int (max (11 - 1) 1)) = 3152519739159347 / 4503599627370496"
    using round64_seven_tenths by simp
  have c: "channel_value 0 90 (3152519739159347 / 4503599627370496) = 62"
  proof -
    have "real_of_int (90 - 0) * (3152519739159347 / 4503599627370496)
            = 90 * (3152519739159347 / 4503599627370496)" by simp
    then have "round64 (real_of_int (90 - 0) * (3152519739159347 / 4503599627370496))
                 = 8866461766385663 / 140737488355328"
      by (simp only: round64_product)
    moreover have "real_of_int 0 + 8866461766385663 / 140737488355328 = (8866461766385663 / 140737488355328 :: real)"
      by simp
    ultimately have "channel_value 0 90 (3152519739159347 / 4503599627370496)
                       = py_int (8866461766385663 / 140737488355328)"
      by (simp only: channel_value_def round64_sum)
    also have "\<dots> = 62" by (simp add: py_int_def)
    finally show ?thesis .
  qed
  have z: "channel_value 0 0 (3152519739159347 / 4503599627370496) = 0"
    by (simp add: channel_value_def round64_zero py_int_def)
  show ?thesis
    using interpolateColor_value [OF v i]
    by (simp only: r) (simp add: red_def green_def blue_def c z)
qed

lemma round64_pow2_1024: "round64 (2 ^ 1024) = 2 ^ 1024"
proof -
  have p: "(2::real) ^ 1024 = 2 powr real_of_int 1024" by (simp add: powr_realpow [symmetric])
  have "round64 (2 powr real_of_int 1024)
          = real_of_int (rne ((2 powr real_of_int 1024) / 2 powr real_of_int (1024 - 52)))
              * 2 powr real_of_int (1024 - 52)"
    by (rule round64_binade) (simp_all add: powr_add)
  also have "(2 powr real_of_int 1024) / 2 powr real_of_int (1024 - 52) = 2 powr real_of_int 52"
    by (simp add: powr_diff [symmetric])
  also have "2 powr real_of_int 52 = real_of_int (2 ^ nat 52)" by (rule pow2_int) simp
  finally have "round64 (2 powr real_of_int 1024)
                  = real_of_int (2 ^ nat 52) * 2 powr real_of_int (1024 - 52)"
    by (simp only: rne_of_int)
  also have "real_of_int (2 ^ nat 52) = 2 powr real_of_int 52" by (rule pow2_int [symmetric]) simp
  also have "2 powr real_of_int 52 * 2 powr real_of_int (1024 - 52) = 2 powr real_of_int 1024"
    by (simp add: powr_add [symmetric])
  finally show ?thesis by (simp only: p)
qed

lemma interpolateColor_overflow: "interpolateColor a (2 ^ 1024) 2 = Inl OverflowError"
proof -
  have "real_of_int (2 ^ 1024) / real_of_int (max (2 - 1) 1) = 2 ^ 1024" by simp
  then have "round64 (real_of_int (2 ^ 1024) / real_of_int (max (2 - 1) 1)) = 2 ^ 1024"
    by (simp only: round64_pow2_1024)
  then have "int_truediv (2 ^ 1024) (max (2 - 1) 1) = Inl OverflowError"
    unfolding int_truediv_def Let_def by (simp del: of_int_power of_int_numeral)
  then show ?thesis by (simp only: interpolateColor_def sum.case)
qed

end
